theory Spec2Isabelle
  imports Complex_Main
begin

section \<open>Data model (db_3.js, the three schemas)\<close>

text \<open>
  Object identifiers are natural numbers and dates are integers (milliseconds since
  the epoch, what \<^verbatim>\<open>getTime()\<close> returns). A seat carries the six fields of
  \<^verbatim>\<open>seatSchema\<close>; the nullable ones are options, \<open>None\<close> standing for
  \<^verbatim>\<open>null\<close>. The \<^verbatim>\<open>createdAt\<close>/\<^verbatim>\<open>updatedAt\<close> stamps that
  \<^verbatim>\<open>timestamps: true\<close> adds are read by no handler and are left out, as is the
  free-form \<^verbatim>\<open>metadata\<close> of an event.

  Request fields have the types the schemas give them: seat numbers and owner
  identifiers are strings, an event identifier is a well-formed object identifier.
  \<^verbatim>\<open>ttlSeconds\<close> is any JSON number, a rational of either sign: the handler
  does not check it. The clock is read once per request; what it returned is the
  argument \<open>now\<close>.
\<close>

type_synonym objectId = nat
type_synonym date = int

datatype status = Available | Locked | Booked

record seat =
  eventId :: objectId
  seatNumber :: string
  status :: status
  lockOwner :: "string option"
  lockExpiresAt :: "date option"
  bookingId :: "objectId option"

record booking =
  b_id :: objectId
  b_eventId :: objectId
  b_ownerId :: string
  b_seats :: "string list"
  b_createdAt :: date

record event =
  e_id :: objectId
  e_name :: string

text \<open>The database: one list of documents per collection, in insertion order.\<close>

record store =
  seats :: "seat list"
  bookings :: "booking list"
  events :: "event list"

text \<open>
  What a handler answers. The 409 answers carry the seat number that the message
  names and which of the four messages it is. \<open>ServerError\<close> is the 500 answer of
  a \<^verbatim>\<open>catch\<close> block; in the model a rejected \<^verbatim>\<open>insertMany\<close> and an
  invalid expiry date lead to it, a database that fails is not modelled.
\<close>

datatype reason = Unavailable | NotLockedOrExpired | AlreadyBooked | NotLockedByYou

datatype response =
    BadRequest string
  | Conflict string reason
  | NotFound string
  | ServerError
  | EventCreated event
  | LockedSeats "seat list"
  | BookingCreated booking
  | CancelledSeats "string list"

section \<open>The storage operations the handlers call\<close>

text \<open>
  The unique index \<^verbatim>\<open>{ eventId: 1, seatNumber: 1 }\<close> of line 20: no two seat
  documents share both fields.
\<close>

definition seat_key :: "seat \<Rightarrow> objectId \<times> string" where
  "seat_key s = (eventId s, seatNumber s)"

definition unique_index :: "seat list \<Rightarrow> bool" where
  "unique_index ss = distinct (map seat_key ss)"

text \<open>The query \<^verbatim>\<open>{ eventId, seatNumber }\<close>.\<close>

definition by_key :: "objectId \<Rightarrow> string \<Rightarrow> seat \<Rightarrow> bool" where
  "by_key eid sn s = (eventId s = eid \<and> seatNumber s = sn)"

text \<open>
  \<^verbatim>\<open>{ $lte: now }\<close> and \<^verbatim>\<open>{ $gt: now }\<close> on a date field: a
  \<^verbatim>\<open>null\<close> field satisfies neither comparison with a date.
\<close>

definition date_lte :: "date option \<Rightarrow> date \<Rightarrow> bool" where
  "date_lte d now = (case d of None \<Rightarrow> False | Some t \<Rightarrow> t \<le> now)"

definition date_gt :: "date option \<Rightarrow> date \<Rightarrow> bool" where
  "date_gt d now = (case d of None \<Rightarrow> False | Some t \<Rightarrow> t > now)"

text \<open>\<^verbatim>\<open>findOne\<close>: the first document that matches, or \<^verbatim>\<open>null\<close>.\<close>

fun findOne :: "(seat \<Rightarrow> bool) \<Rightarrow> seat list \<Rightarrow> seat option" where
  "findOne f [] = None"
| "findOne f (s # ss) = (if f s then Some s else findOne f ss)"

text \<open>\<^verbatim>\<open>updateOne\<close>: the first document that matches is updated, if there is one.\<close>

fun updateOne :: "(seat \<Rightarrow> bool) \<Rightarrow> (seat \<Rightarrow> seat) \<Rightarrow> seat list \<Rightarrow> seat list" where
  "updateOne f u [] = []"
| "updateOne f u (s # ss) = (if f s then u s # ss else s # updateOne f u ss)"

text \<open>
  \<^verbatim>\<open>findOneAndUpdate\<close> with \<^verbatim>\<open>new: true\<close>: matching and updating are one
  step, and the document is returned as it is after the update.
\<close>

fun findOneAndUpdate ::
  "(seat \<Rightarrow> bool) \<Rightarrow> (seat \<Rightarrow> seat) \<Rightarrow> seat list \<Rightarrow> seat option \<times> seat list" where
  "findOneAndUpdate f u [] = (None, [])"
| "findOneAndUpdate f u (s # ss) =
     (if f s then (Some (u s), u s # ss)
      else (case findOneAndUpdate f u ss of (r, ss') \<Rightarrow> (r, s # ss')))"

text \<open>
  \<^verbatim>\<open>updateMany\<close>: every matching document is updated; \<^verbatim>\<open>modifiedCount\<close>
  counts the matched documents that the update changed.
\<close>

definition updateMany ::
  "(seat \<Rightarrow> bool) \<Rightarrow> (seat \<Rightarrow> seat) \<Rightarrow> seat list \<Rightarrow> seat list \<times> nat" where
  "updateMany f u ss =
     (map (\<lambda>s. if f s then u s else s) ss, length (filter (\<lambda>s. f s \<and> u s \<noteq> s) ss))"

text \<open>
  A session holds the store as committed and the store as the running transaction
  sees it (a transaction reads its own writes). Aborting drops the working copy,
  committing installs it.
\<close>

record session =
  committed :: store
  working :: store

definition startTransaction :: "store \<Rightarrow> session" where
  "startTransaction db = \<lparr>committed = db, working = db\<rparr>"

definition abortTransaction :: "session \<Rightarrow> store" where
  "abortTransaction se = committed se"

definition commitTransaction :: "session \<Rightarrow> store" where
  "commitTransaction se = working se"

section \<open>POST /events (lines 46-57)\<close>

text \<open>
  \<^verbatim>\<open>insertMany\<close>, ordered: the documents are validated first (a required string
  must not be empty) and nothing is inserted when one is invalid; then they are
  inserted one by one, and the first that breaks the unique index stops the insertion
  with the earlier ones kept. New seats take the schema's defaults.
\<close>

definition new_seat :: "objectId \<Rightarrow> string \<Rightarrow> seat" where
  "new_seat eid sn =
     \<lparr>eventId = eid, seatNumber = sn, status = Available,
      lockOwner = None, lockExpiresAt = None, bookingId = None\<rparr>"

fun insert_ordered :: "seat list \<Rightarrow> seat list \<Rightarrow> bool \<times> seat list" where
  "insert_ordered [] ss = (True, ss)"
| "insert_ordered (d # ds) ss =
     (if seat_key d \<in> set (map seat_key ss) then (False, ss)
      else insert_ordered ds (ss @ [d]))"

definition insertMany :: "seat list \<Rightarrow> seat list \<Rightarrow> bool \<times> seat list" where
  "insertMany docs ss =
     (if list_ex (\<lambda>d. seatNumber d = []) docs then (False, ss)
      else insert_ordered docs ss)"

text \<open>
  The handler; \<open>new_id\<close> is the identifier \<^verbatim>\<open>Event.create\<close> gives the event.
  No transaction is used here: after a failed insertion the event and the seats
  inserted so far stay.
\<close>

definition post_events :: "store \<Rightarrow> string \<Rightarrow> string list \<Rightarrow> objectId \<Rightarrow> response \<times> store" where
  "post_events db name seatNumbers new_id =
     (if name = [] then (BadRequest ''name required'', db)
      else
        let ev = \<lparr>e_id = new_id, e_name = name\<rparr>;
            db1 = db\<lparr>events := events db @ [ev]\<rparr>;
            docs = map (new_seat new_id) seatNumbers
        in if docs \<noteq> [] then
             (case insertMany docs (seats db1) of
                (True, ss) \<Rightarrow> (EventCreated ev, db1\<lparr>seats := ss\<rparr>)
              | (False, ss) \<Rightarrow> (ServerError, db1\<lparr>seats := ss\<rparr>))
           else (EventCreated ev, db1))"

section \<open>POST /events/:eventId/lock (lines 69-114)\<close>

definition lock_filter :: "objectId \<Rightarrow> string \<Rightarrow> date \<Rightarrow> seat \<Rightarrow> bool" where
  "lock_filter eid sn now s =
     (eventId s = eid \<and> seatNumber s = sn \<and>
      (status s = Available \<or> (status s = Locked \<and> date_lte (lockExpiresAt s) now)))"

definition lock_update :: "string \<Rightarrow> date \<Rightarrow> seat \<Rightarrow> seat" where
  "lock_update owner expiresAt s =
     s\<lparr>status := Locked, lockOwner := Some owner,
       lockExpiresAt := Some expiresAt, bookingId := None\<rparr>"

text \<open>
  The loop of lines 83-102 over the seats as the transaction sees them: \<open>Inl\<close> is the
  seat number at which it returned early, \<open>Inr\<close> the seats after the loop and
  \<^verbatim>\<open>lockedSeats\<close>.
\<close>

fun lock_loop ::
  "objectId \<Rightarrow> string \<Rightarrow> date \<Rightarrow> date \<Rightarrow> string list \<Rightarrow> seat list \<Rightarrow> seat list
   \<Rightarrow> string + seat list \<times> seat list" where
  "lock_loop eid owner expiresAt now [] ss lockedSeats = Inr (ss, lockedSeats)"
| "lock_loop eid owner expiresAt now (sn # sns) ss lockedSeats =
     (case findOneAndUpdate (lock_filter eid sn now) (lock_update owner expiresAt) ss of
        (None, ss') \<Rightarrow> Inl sn
      | (Some seat, ss') \<Rightarrow> lock_loop eid owner expiresAt now sns ss' (lockedSeats @ [seat]))"

text \<open>
  \<^verbatim>\<open>new Date(value)\<close> of line 77: a value more than 8.64e15 milliseconds away
  from the epoch gives an invalid date (\<open>None\<close>), any other value is cut to whole
  milliseconds, towards zero. The sum and the product are taken exactly; the rounding
  of double-precision arithmetic is not modelled.
\<close>

definition truncate_ms :: "rat \<Rightarrow> int" where
  "truncate_ms v = (if 0 \<le> v then \<lfloor>v\<rfloor> else \<lceil>v\<rceil>)"

definition new_Date :: "rat \<Rightarrow> date option" where
  "new_Date v = (if 8640000000000000 < \<bar>v\<bar> then None else Some (truncate_ms v))"

text \<open>
  The handler. The update document is cast when the first
  \<^verbatim>\<open>findOneAndUpdate\<close> is issued (the list is not empty there), and an invalid
  date does not pass the cast: the call throws before any seat is tried, and the
  \<^verbatim>\<open>catch\<close> of lines 106-109 aborts the transaction and answers 500.
\<close>

definition post_lock ::
  "store \<Rightarrow> objectId \<Rightarrow> string list \<Rightarrow> string \<Rightarrow> rat \<Rightarrow> date \<Rightarrow> response \<times> store" where
  "post_lock db eid seatNumbers owner ttlSeconds now =
     (if seatNumbers = [] then (BadRequest ''seatNumbers required'', db)
      else if owner = [] then (BadRequest ''ownerId required'', db)
      else
        let expiresAt = new_Date (of_int now + ttlSeconds * 1000);
            se = startTransaction db
        in case expiresAt of
             None \<Rightarrow> (ServerError, abortTransaction se)
           | Some t \<Rightarrow>
               (case lock_loop eid owner t now seatNumbers (seats (working se)) [] of
                  Inl sn \<Rightarrow> (Conflict sn Unavailable, abortTransaction se)
                | Inr (ss, lockedSeats) \<Rightarrow>
                    (LockedSeats lockedSeats,
                     commitTransaction (se\<lparr>working := (working se)\<lparr>seats := ss\<rparr>\<rparr>))))"

section \<open>POST /events/:eventId/confirm (lines 116-169)\<close>

definition confirm_filter :: "objectId \<Rightarrow> string \<Rightarrow> string \<Rightarrow> date \<Rightarrow> seat \<Rightarrow> bool" where
  "confirm_filter eid sn owner now s =
     (eventId s = eid \<and> seatNumber s = sn \<and> status s = Locked \<and>
      lockOwner s = Some owner \<and> date_gt (lockExpiresAt s) now)"

definition book_update :: "objectId \<Rightarrow> seat \<Rightarrow> seat" where
  "book_update bid s =
     s\<lparr>status := Booked, bookingId := Some bid, lockOwner := None, lockExpiresAt := None\<rparr>"

text \<open>The first loop (lines 129-144) only reads; \<open>Inl\<close> is the seat it stopped at.\<close>

fun check_loop ::
  "objectId \<Rightarrow> string \<Rightarrow> date \<Rightarrow> string list \<Rightarrow> seat list \<Rightarrow> seat list
   \<Rightarrow> string + seat list" where
  "check_loop eid owner now [] ss seatsToBook = Inr seatsToBook"
| "check_loop eid owner now (sn # sns) ss seatsToBook =
     (case findOne (confirm_filter eid sn owner now) ss of
        None \<Rightarrow> Inl sn
      | Some seat \<Rightarrow> check_loop eid owner now sns ss (seatsToBook @ [seat]))"

text \<open>The second loop (lines 149-155).\<close>

fun book_loop :: "objectId \<Rightarrow> objectId \<Rightarrow> string list \<Rightarrow> seat list \<Rightarrow> seat list" where
  "book_loop eid bid [] ss = ss"
| "book_loop eid bid (sn # sns) ss =
     book_loop eid bid sns (updateOne (by_key eid sn) (book_update bid) ss)"

text \<open>
  \<open>new_id\<close> is the identifier \<^verbatim>\<open>Booking.create\<close> gives the booking and
  \<open>created\<close> the value of its \<^verbatim>\<open>createdAt\<close> default.
\<close>

definition post_confirm ::
  "store \<Rightarrow> objectId \<Rightarrow> string list \<Rightarrow> string \<Rightarrow> date \<Rightarrow> objectId \<Rightarrow> date
   \<Rightarrow> response \<times> store" where
  "post_confirm db eid seatNumbers owner now new_id created =
     (if seatNumbers = [] then (BadRequest ''seatNumbers required'', db)
      else if owner = [] then (BadRequest ''ownerId required'', db)
      else
        let se = startTransaction db
        in case check_loop eid owner now seatNumbers (seats (working se)) [] of
             Inl sn \<Rightarrow> (Conflict sn NotLockedOrExpired, abortTransaction se)
           | Inr seatsToBook \<Rightarrow>
               let b = \<lparr>b_id = new_id, b_eventId = eid, b_ownerId = owner,
                        b_seats = seatNumbers, b_createdAt = created\<rparr>;
                   w1 = (working se)\<lparr>bookings := bookings (working se) @ [b]\<rparr>;
                   w2 = w1\<lparr>seats := book_loop eid (b_id b) seatNumbers (seats w1)\<rparr>
               in (BookingCreated b, commitTransaction (se\<lparr>working := w2\<rparr>)))"

section \<open>POST /events/:eventId/cancel (lines 171-212)\<close>

definition release_update :: "seat \<Rightarrow> seat" where
  "release_update s = s\<lparr>status := Available, lockOwner := None, lockExpiresAt := None\<rparr>"

text \<open>The loop of lines 181-200; \<open>Inl\<close> is the answer of the early return.\<close>

fun cancel_loop :: "objectId \<Rightarrow> string \<Rightarrow> string list \<Rightarrow> seat list \<Rightarrow> response + seat list" where
  "cancel_loop eid owner [] ss = Inr ss"
| "cancel_loop eid owner (sn # sns) ss =
     (case findOne (by_key eid sn) ss of
        None \<Rightarrow> Inl (NotFound sn)
      | Some seat \<Rightarrow>
          if status seat = Booked then Inl (Conflict sn AlreadyBooked)
          else if status seat = Locked \<and> lockOwner seat = Some owner
          then cancel_loop eid owner sns (updateOne (by_key eid sn) release_update ss)
          else Inl (Conflict sn NotLockedByYou))"

definition post_cancel ::
  "store \<Rightarrow> objectId \<Rightarrow> string list \<Rightarrow> string \<Rightarrow> response \<times> store" where
  "post_cancel db eid seatNumbers owner =
     (if seatNumbers = [] then (BadRequest ''seatNumbers required'', db)
      else if owner = [] then (BadRequest ''ownerId required'', db)
      else
        let se = startTransaction db
        in case cancel_loop eid owner seatNumbers (seats (working se)) of
             Inl r \<Rightarrow> (r, abortTransaction se)
           | Inr ss \<Rightarrow>
               (CancelledSeats seatNumbers,
                commitTransaction (se\<lparr>working := (working se)\<lparr>seats := ss\<rparr>\<rparr>)))"

section \<open>cleanupExpiredLocks (lines 223-236)\<close>

definition expired_lock :: "date \<Rightarrow> seat \<Rightarrow> bool" where
  "expired_lock now s = (status s = Locked \<and> date_lte (lockExpiresAt s) now)"

text \<open>
  The function returns nothing to the timer that calls it. The model returns
  \<^verbatim>\<open>result.modifiedCount\<close>, the number it logs when positive, and the store.
\<close>

definition cleanupExpiredLocks :: "store \<Rightarrow> date \<Rightarrow> nat \<times> store" where
  "cleanupExpiredLocks db now =
     (case updateMany (expired_lock now) release_update (seats db) of
        (ss, modifiedCount) \<Rightarrow> (modifiedCount, db\<lparr>seats := ss\<rparr>))"

section \<open>The per-seat field invariant\<close>

definition seat_inv :: "seat \<Rightarrow> bool" where
  "seat_inv s =
     (case status s of
        Available \<Rightarrow> lockOwner s = None \<and> lockExpiresAt s = None \<and> bookingId s = None
      | Locked \<Rightarrow> lockOwner s \<noteq> None \<and> lockExpiresAt s \<noteq> None \<and> bookingId s = None
      | Booked \<Rightarrow> bookingId s \<noteq> None \<and> lockOwner s = None \<and> lockExpiresAt s = None)"

definition store_inv :: "store \<Rightarrow> bool" where
  "store_inv db = list_all seat_inv (seats db)"

section \<open>The check of confirm, in the specification's words\<close>

text \<open>
  A seat can be confirmed by an owner at \<open>now\<close> when it exists for the event with
  status locked, that owner as lock owner, and an expiry strictly after \<open>now\<close>.
\<close>

definition confirmable :: "seat list \<Rightarrow> objectId \<Rightarrow> string \<Rightarrow> string \<Rightarrow> date \<Rightarrow> bool" where
  "confirmable ss eid sn owner now =
     (\<exists>s\<in>set ss. eventId s = eid \<and> seatNumber s = sn \<and> status s = Locked \<and>
        lockOwner s = Some owner \<and>
        (case lockExpiresAt s of None \<Rightarrow> False | Some t \<Rightarrow> now < t))"

section \<open>Sequences of lock, cancel and sweep\<close>

text \<open>
  A request to one of the three operations that release or take seats, with its
  arguments, and the store after a list of them run one after the other (answers
  dropped).
\<close>

datatype request =
    LockRequest objectId "string list" string rat date
  | CancelRequest objectId "string list" string
  | SweepTick date

fun apply_request :: "store \<Rightarrow> request \<Rightarrow> store" where
  "apply_request db (LockRequest eid seatNumbers owner ttlSeconds now) =
     snd (post_lock db eid seatNumbers owner ttlSeconds now)"
| "apply_request db (CancelRequest eid seatNumbers owner) =
     snd (post_cancel db eid seatNumbers owner)"
| "apply_request db (SweepTick now) = snd (cleanupExpiredLocks db now)"

definition run_requests :: "store \<Rightarrow> request list \<Rightarrow> store" where
  "run_requests db reqs = foldl apply_request db reqs"

section \<open>Sample data\<close>

text \<open>
  Four seats of event 1, read at the time 100: \<open>A1\<close> is available, \<open>A2\<close> is
  locked by \<open>u1\<close> with a lease that ran out at 50, \<open>A3\<close> is locked by \<open>u2\<close>
  until 500, \<open>A4\<close> is booked by booking 7.
\<close>

definition seat_A1 :: seat where
  "seat_A1 = \<lparr>eventId = 1, seatNumber = ''A1'', status = Available,
     lockOwner = None, lockExpiresAt = None, bookingId = None\<rparr>"

definition seat_A2 :: seat where
  "seat_A2 = \<lparr>eventId = 1, seatNumber = ''A2'', status = Locked,
     lockOwner = Some ''u1'', lockExpiresAt = Some 50, bookingId = None\<rparr>"

definition seat_A3 :: seat where
  "seat_A3 = \<lparr>eventId = 1, seatNumber = ''A3'', status = Locked,
     lockOwner = Some ''u2'', lockExpiresAt = Some 500, bookingId = None\<rparr>"

definition seat_A4 :: seat where
  "seat_A4 = \<lparr>eventId = 1, seatNumber = ''A4'', status = Booked,
     lockOwner = None, lockExpiresAt = None, bookingId = Some 7\<rparr>"

definition hall :: store where
  "hall = \<lparr>seats = [seat_A1, seat_A2, seat_A3, seat_A4],
            bookings = [\<lparr>b_id = 7, b_eventId = 1, b_ownerId = ''u0'', b_seats = [''A4''],
                         b_createdAt = 10\<rparr>],
            events = [\<lparr>e_id = 1, e_name = ''opera''\<rparr>]\<rparr>"

section \<open>The sweep\<close>

lemmas sample_defs = hall_def seat_A1_def seat_A2_def seat_A3_def seat_A4_def

lemma expired_lock_release [simp]: "\<not> expired_lock now (release_update s)"
  by (simp add: expired_lock_def release_update_def)










section \<open>The field invariant is kept\<close>

lemma seat_inv_new [simp]: "seat_inv (new_seat eid sn)"
  by (simp add: seat_inv_def new_seat_def)

lemma seat_inv_lock [simp]: "seat_inv (lock_update owner t s)"
  by (simp add: seat_inv_def lock_update_def)

lemma seat_inv_book [simp]: "seat_inv (book_update bid s)"
  by (simp add: seat_inv_def book_update_def)

lemma seat_inv_release: "seat_inv s \<Longrightarrow> status s = Locked \<Longrightarrow> seat_inv (release_update s)"
  by (simp add: seat_inv_def release_update_def)

lemma findOneAndUpdate_all:
  "list_all P ss \<Longrightarrow> (\<And>s. P (u s)) \<Longrightarrow> list_all P (snd (findOneAndUpdate f u ss))"
  by (induction ss) (auto split: prod.splits)

lemma updateOne_all:
  "list_all P ss \<Longrightarrow> (\<And>s. P (u s)) \<Longrightarrow> list_all P (updateOne f u ss)"
  by (induction ss) auto

lemma updateOne_found_all:
  "list_all P ss \<Longrightarrow> findOne f ss = Some s \<Longrightarrow> P (u s) \<Longrightarrow> list_all P (updateOne f u ss)"
  by (induction ss) (auto split: if_splits)

lemma insert_ordered_all:
  "list_all P ss \<Longrightarrow> list_all P docs \<Longrightarrow> list_all P (snd (insert_ordered docs ss))"
  by (induction docs arbitrary: ss) auto

lemma lock_loop_all:
  "list_all seat_inv ss \<Longrightarrow> lock_loop eid owner t now sns ss acc = Inr (ss', ls)
   \<Longrightarrow> list_all seat_inv ss'"
proof (induction sns arbitrary: ss acc)
  case Nil
  then show ?case by simp
next
  case (Cons sn sns)
  obtain r ss1 where f: "findOneAndUpdate (lock_filter eid sn now) (lock_update owner t) ss = (r, ss1)"
    by (cases "findOneAndUpdate (lock_filter eid sn now) (lock_update owner t) ss")
  have "list_all seat_inv (snd (findOneAndUpdate (lock_filter eid sn now) (lock_update owner t) ss))"
    using Cons.prems(1) by (rule findOneAndUpdate_all) simp
  with f have inv1: "list_all seat_inv ss1" by simp
  from Cons.prems(2) f obtain seat where "r = Some seat"
    and "lock_loop eid owner t now sns ss1 (acc @ [seat]) = Inr (ss', ls)"
    by (cases r) auto
  with Cons.IH [OF inv1] show ?case by blast
qed

lemma book_loop_all:
  "list_all seat_inv ss \<Longrightarrow> list_all seat_inv (book_loop eid bid sns ss)"
  by (induction sns arbitrary: ss) (simp_all add: updateOne_all)

lemma cancel_loop_all:
  "list_all seat_inv ss \<Longrightarrow> cancel_loop eid owner sns ss = Inr ss' \<Longrightarrow> list_all seat_inv ss'"
proof (induction sns arbitrary: ss)
  case Nil
  then show ?case by simp
next
  case (Cons sn sns)
  from Cons.prems(2) obtain seat where found: "findOne (by_key eid sn) ss = Some seat"
    and locked: "status seat = Locked"
    and rest: "cancel_loop eid owner sns (updateOne (by_key eid sn) release_update ss) = Inr ss'"
    by (auto split: option.splits if_splits)
  from found have "seat \<in> set ss"
    by (induction ss) (auto split: if_splits)
  with Cons.prems(1) have "seat_inv seat" by (simp add: list_all_iff)
  with locked have "seat_inv (release_update seat)" by (simp add: seat_inv_release)
  with Cons.prems(1) found have "list_all seat_inv (updateOne (by_key eid sn) release_update ss)"
    by (rule updateOne_found_all)
  from Cons.IH [OF this rest] show ?case .
qed

lemma sweep_all:
  "list_all seat_inv ss \<Longrightarrow> list_all seat_inv (fst (updateMany (expired_lock now) release_update ss))"
  by (induction ss) (auto simp: updateMany_def expired_lock_def intro: seat_inv_release)

lemma post_events_inv: "store_inv db \<Longrightarrow> store_inv (snd (post_events db name sns nid))"
proof -
  assume a: "store_inv db"
  have d: "list_all seat_inv (map (new_seat nid) sns)" by (induction sns) auto
  have "list_all seat_inv (snd (insert_ordered (map (new_seat nid) sns) (seats db)))"
    using a d by (simp add: store_inv_def insert_ordered_all)
  with a show ?thesis
    by (auto simp: post_events_def store_inv_def insertMany_def Let_def split: prod.splits bool.splits)
qed

lemma post_lock_inv: "store_inv db \<Longrightarrow> store_inv (snd (post_lock db eid sns owner ttl now))"
  by (auto simp: post_lock_def store_inv_def Let_def startTransaction_def abortTransaction_def
      commitTransaction_def split: sum.splits option.splits dest: lock_loop_all)

lemma post_confirm_inv:
  "store_inv db \<Longrightarrow> store_inv (snd (post_confirm db eid sns owner now nid created))"
  by (auto simp: post_confirm_def store_inv_def Let_def startTransaction_def abortTransaction_def
      commitTransaction_def book_loop_all split: sum.splits)

lemma post_cancel_inv: "store_inv db \<Longrightarrow> store_inv (snd (post_cancel db eid sns owner))"
  by (auto simp: post_cancel_def store_inv_def Let_def startTransaction_def abortTransaction_def
      commitTransaction_def split: sum.splits dest: cancel_loop_all)

lemma cleanup_inv: "store_inv db \<Longrightarrow> store_inv (snd (cleanupExpiredLocks db now))"
  using sweep_all [of "seats db" now]
  by (auto simp: cleanupExpiredLocks_def store_inv_def split: prod.splits)

text \<open>
  C5. When every seat of the store satisfies the field invariant (an available seat
  has no owner, expiry or booking; a locked seat has an owner and an expiry and no
  booking; a booked seat has a booking and no owner or expiry), so does every seat of
  the store that seat creation, lock, confirm, cancel and the sweep leave behind,
  whatever they answer.
\<close>

theorem field_invariant_preserved:
  assumes "store_inv db"
  shows "store_inv (snd (post_events db name seatNumbers new_id))
    \<and> store_inv (snd (post_lock db eid seatNumbers owner ttlSeconds now))
    \<and> store_inv (snd (post_confirm db eid seatNumbers owner now new_id created))
    \<and> store_inv (snd (post_cancel db eid seatNumbers owner))
    \<and> store_inv (snd (cleanupExpiredLocks db now))"
  using assms
  by (simp add: post_events_inv post_lock_inv post_confirm_inv post_cancel_inv cleanup_inv)

theorem field_invariant_preserved_witness:
  "store_inv hall
    \<and> store_inv (snd (post_events hall ''gala'' [''A3'', ''B1''] 2))
    \<and> store_inv (snd (post_lock hall 1 [''A3'', ''B1''] ''u2'' 60 100))
    \<and> store_inv (snd (post_confirm hall 1 [''A3'', ''B1''] ''u2'' 100 2 100))
    \<and> store_inv (snd (post_cancel hall 1 [''A3'', ''B1''] ''u2''))
    \<and> store_inv (snd (cleanupExpiredLocks hall 100))"
proof -
  have h: "store_inv hall"
    by (simp add: store_inv_def seat_inv_def sample_defs)
  from field_invariant_preserved [OF h, of "''gala''" "[''A3'', ''B1'']" 2 1 "''u2''" 60 100 100]
  show ?thesis using h by simp
qed

section \<open>First match and the unique index\<close>

lemma findOne_None_iff: "findOne f ss = None \<longleftrightarrow> (\<forall>s\<in>set ss. \<not> f s)"
  by (induction ss) auto

lemma findOne_SomeD:
  "findOne f ss = Some x \<Longrightarrow>
   \<exists>k<length ss. ss ! k = x \<and> f x \<and> (\<forall>j<k. \<not> f (ss ! j))"
proof (induction ss)
  case Nil
  then show ?case by simp
next
  case (Cons s ss)
  show ?case
  proof (cases "f s")
    case True
    with Cons.prems have "x = s" by simp
    with True show ?thesis by (intro exI [of _ 0]) simp
  next
    case False
    with Cons.prems have "findOne f ss = Some x" by simp
    from Cons.IH [OF this] obtain k where k: "k < length ss" "ss ! k = x" "f x"
      "\<forall>j<k. \<not> f (ss ! j)" by blast
    have "\<forall>j<Suc k. \<not> f ((s # ss) ! j)"
      using False k(4) by (auto simp: less_Suc_eq_0_disj)
    with k show ?thesis by (intro exI [of _ "Suc k"]) simp
  qed
qed

lemma findOne_first:
  "k < length ss \<Longrightarrow> f (ss ! k) \<Longrightarrow> \<forall>j<k. \<not> f (ss ! j) \<Longrightarrow> findOne f ss = Some (ss ! k)"
proof (induction ss arbitrary: k)
  case Nil
  then show ?case by simp
next
  case (Cons s ss)
  show ?case
  proof (cases k)
    case 0
    with Cons.prems show ?thesis by simp
  next
    case (Suc k')
    with Cons.prems have "\<not> f s" by auto
    moreover have "findOne f ss = Some (ss ! k')"
      using Cons.prems Suc by (intro Cons.IH) auto
    ultimately show ?thesis using Suc by simp
  qed
qed

lemma updateOne_first:
  "k < length ss \<Longrightarrow> f (ss ! k) \<Longrightarrow> \<forall>j<k. \<not> f (ss ! j) \<Longrightarrow>
   updateOne f u ss = ss[k := u (ss ! k)]"
proof (induction ss arbitrary: k)
  case Nil
  then show ?case by simp
next
  case (Cons s ss)
  show ?case
  proof (cases k)
    case 0
    with Cons.prems show ?thesis by simp
  next
    case (Suc k')
    with Cons.prems have "\<not> f s" by auto
    moreover have "updateOne f u ss = ss[k' := u (ss ! k')]"
      using Cons.prems Suc by (intro Cons.IH) auto
    ultimately show ?thesis using Suc by simp
  qed
qed


lemma findOneAndUpdate_eq:
  "findOneAndUpdate f u ss = (map_option u (findOne f ss), updateOne f u ss)"
  by (induction ss) auto



lemma findOneAndUpdate_SomeD:
  assumes "findOneAndUpdate f u ss = (Some x, ss')"
  shows "\<exists>k<length ss. f (ss ! k) \<and> (\<forall>j<k. \<not> f (ss ! j)) \<and> x = u (ss ! k) \<and> ss' = ss[k := u (ss ! k)]"
proof -
  from assms obtain y where y: "findOne f ss = Some y" and x: "x = u y"
    and s: "ss' = updateOne f u ss"
    by (auto simp: findOneAndUpdate_eq)
  from findOne_SomeD [OF y] obtain k where k: "k < length ss" "ss ! k = y" "f y"
    "\<forall>j<k. \<not> f (ss ! j)" by blast
  then have "updateOne f u ss = ss[k := u (ss ! k)]"
    by (intro updateOne_first) auto
  with k x s show ?thesis by blast
qed



lemma unique_index_nth:
  assumes "unique_index ss" "i < length ss" "j < length ss"
    "seat_key (ss ! i) = seat_key (ss ! j)"
  shows "i = j"
proof -
  have d: "distinct (map seat_key ss)" using assms(1) by (simp add: unique_index_def)
  have "map seat_key ss ! i = map seat_key ss ! j" using assms by simp
  moreover have "i < length (map seat_key ss)" "j < length (map seat_key ss)"
    using assms(2,3) by simp_all
  ultimately show ?thesis using nth_eq_iff_index_eq [OF d] by blast
qed


lemma unique_index_only:
  assumes "unique_index ss" "i < length ss" "by_key eid sn (ss ! i)"
    "j < length ss" "by_key eid sn (ss ! j)"
  shows "j = i"
proof -
  have "seat_key (ss ! j) = seat_key (ss ! i)"
    using assms(3,5) by (simp add: by_key_def seat_key_def)
  with assms(1,2,4) show ?thesis by (intro unique_index_nth [of ss j i])
qed

lemma seat_key_lock [simp]: "seat_key (lock_update owner t s) = seat_key s"
  by (simp add: seat_key_def lock_update_def)

lemma seat_key_book [simp]: "seat_key (book_update b s) = seat_key s"
  by (simp add: seat_key_def book_update_def)

lemma seat_key_release [simp]: "seat_key (release_update s) = seat_key s"
  by (simp add: seat_key_def release_update_def)

section \<open>The lock loop\<close>


lemma lock_filter_key: "lock_filter eid sn now a \<Longrightarrow> eventId a = eid \<and> seatNumber a = sn"
  by (simp add: lock_filter_def)

lemma lock_update_fields [simp]:
  "eventId (lock_update owner t a) = eventId a"
  "seatNumber (lock_update owner t a) = seatNumber a"
  "status (lock_update owner t a) = Locked"
  "lockOwner (lock_update owner t a) = Some owner"
  "lockExpiresAt (lock_update owner t a) = Some t"
  "bookingId (lock_update owner t a) = None"
  by (simp_all add: lock_update_def)

text \<open>One successful step of the loop changes one document, which has the key asked for.\<close>

lemma lock_step:
  assumes "findOneAndUpdate (lock_filter eid x now) (lock_update owner t) ss = (Some seat, ss1)"
  shows "\<exists>k<length ss. lock_filter eid x now (ss ! k) \<and> (\<forall>j<k. \<not> lock_filter eid x now (ss ! j))
           \<and> seat = lock_update owner t (ss ! k) \<and> ss1 = ss[k := seat]"
  using findOneAndUpdate_SomeD [OF assms] by blast








section \<open>Lock: conflicts roll the batch back\<close>








lemma hall_unique: "unique_index (seats hall)"
  by (simp add: unique_index_def seat_key_def sample_defs)






section \<open>Lock: no re-entry, and a seat asked for twice\<close>









section \<open>Confirm\<close>

lemma confirmable_iff:
  "confirmable ss eid sn owner now \<longleftrightarrow> (\<exists>a\<in>set ss. confirm_filter eid sn owner now a)"
  by (simp add: confirmable_def confirm_filter_def date_gt_def)

lemma confirmable_findOne:
  "confirmable ss eid sn owner now \<longleftrightarrow> findOne (confirm_filter eid sn owner now) ss \<noteq> None"
  by (simp add: confirmable_iff findOne_None_iff)

lemma check_loop_ok:
  "\<forall>sn\<in>set sns. confirmable ss eid sn owner now \<Longrightarrow>
   \<exists>l. check_loop eid owner now sns ss acc = Inr l"
  by (induction sns arbitrary: acc) (auto simp: confirmable_findOne)

lemma check_loop_first_fail:
  "find (\<lambda>sn. \<not> confirmable ss eid sn owner now) sns = Some f \<Longrightarrow>
   check_loop eid owner now sns ss acc = Inl f"
  by (induction sns arbitrary: acc) (auto simp: confirmable_findOne split: if_splits)

lemma find_failing:
  "sn \<in> set sns \<Longrightarrow> \<not> P sn \<Longrightarrow> \<exists>f\<in>set sns. \<not> P f \<and> find (\<lambda>x. \<not> P x) sns = Some f"
  by (induction sns) auto

lemma unique_index_Cons:
  "unique_index (s # ss) \<longleftrightarrow> unique_index ss \<and> (\<forall>a\<in>set ss. seat_key a \<noteq> seat_key s)"
  by (simp add: unique_index_def image_iff) metis

lemma by_key_seat_key: "by_key eid sn a \<longleftrightarrow> seat_key a = (eid, sn)"
  by (auto simp: by_key_def seat_key_def)

lemma updateOne_by_key_map:
  "unique_index ss \<Longrightarrow>
   updateOne (by_key eid sn) u ss = map (\<lambda>s. if by_key eid sn s then u s else s) ss"
proof (induction ss)
  case Nil
  then show ?case by simp
next
  case (Cons s ss)
  show ?case
  proof (cases "by_key eid sn s")
    case True
    with Cons.prems have "\<forall>a\<in>set ss. \<not> by_key eid sn a"
      by (auto simp: unique_index_Cons by_key_seat_key)
    then have "map (\<lambda>s. if by_key eid sn s then u s else s) ss = ss"
      by (induction ss) auto
    with True show ?thesis by simp
  next
    case False
    with Cons show ?thesis by (simp add: unique_index_Cons)
  qed
qed

lemma unique_index_map:
  "unique_index ss \<Longrightarrow> (\<And>s. seat_key (g s) = seat_key s) \<Longrightarrow> unique_index (map g ss)"
proof -
  assume u: "unique_index ss" and k: "\<And>s. seat_key (g s) = seat_key s"
  have "map seat_key (map g ss) = map seat_key ss" by (simp add: k)
  with u show ?thesis by (simp add: unique_index_def del: map_map)
qed

lemma book_update_fields [simp]:
  "eventId (book_update b a) = eventId a"
  "seatNumber (book_update b a) = seatNumber a"
  "book_update b (book_update b a) = book_update b a"
  by (simp_all add: book_update_def)

lemma book_loop_map:
  "unique_index ss \<Longrightarrow>
   book_loop eid bid sns ss =
     map (\<lambda>s. if eventId s = eid \<and> seatNumber s \<in> set sns then book_update bid s else s) ss"
proof (induction sns arbitrary: ss)
  case Nil
  then show ?case by simp
next
  case (Cons sn sns)
  let ?g = "\<lambda>s. if by_key eid sn s then book_update bid s else s"
  have u: "unique_index (map ?g ss)"
    using Cons.prems by (rule unique_index_map) simp
  have "book_loop eid bid (sn # sns) ss = book_loop eid bid sns (map ?g ss)"
    using Cons.prems by (simp add: updateOne_by_key_map)
  also have "\<dots> = map (\<lambda>s. if eventId s = eid \<and> seatNumber s \<in> set sns then book_update bid s else s)
      (map ?g ss)"
    using u by (rule Cons.IH)
  also have "\<dots> = map (\<lambda>s. if eventId s = eid \<and> seatNumber s \<in> set (sn # sns)
      then book_update bid s else s) ss"
    by (auto simp: by_key_def)
  finally show ?case .
qed

lemma post_confirm_stopped:
  assumes "owner \<noteq> []"
    and "check_loop eid owner now seatNumbers (seats db) [] = Inl f"
  shows "post_confirm db eid seatNumbers owner now new_id created = (Conflict f NotLockedOrExpired, db)"
proof -
  from assms(2) have "seatNumbers \<noteq> []" by auto
  with assms show ?thesis
    by (simp add: post_confirm_def Let_def startTransaction_def abortTransaction_def)
qed

text \<open>
  C2. For a validated confirm request (seat numbers and owner given) on a store with
  the unique index: when every requested seat can be confirmed, one booking with all
  the seat numbers is appended and answered, and every requested seat of the event
  becomes booked with that booking's identifier and no owner or expiry, the other
  seats staying as they are; when some requested seat cannot be confirmed, the answer
  is a Conflict naming the first requested seat that cannot, and the store (seats and
  bookings) is returned unchanged.
\<close>

theorem confirm_all_or_nothing:
  assumes "owner \<noteq> []" and "seatNumbers \<noteq> []" and "unique_index (seats db)"
  shows "((\<forall>sn\<in>set seatNumbers. confirmable (seats db) eid sn owner now) \<longrightarrow>
           post_confirm db eid seatNumbers owner now new_id created =
             (BookingCreated \<lparr>b_id = new_id, b_eventId = eid, b_ownerId = owner,
                              b_seats = seatNumbers, b_createdAt = created\<rparr>,
              db\<lparr>bookings := bookings db @
                    [\<lparr>b_id = new_id, b_eventId = eid, b_ownerId = owner,
                      b_seats = seatNumbers, b_createdAt = created\<rparr>],
                 seats := map (\<lambda>s. if eventId s = eid \<and> seatNumber s \<in> set seatNumbers
                                     then s\<lparr>status := Booked, bookingId := Some new_id,
                                            lockOwner := None, lockExpiresAt := None\<rparr>
                                     else s) (seats db)\<rparr>))
    \<and> ((\<exists>sn\<in>set seatNumbers. \<not> confirmable (seats db) eid sn owner now) \<longrightarrow>
          (\<exists>f\<in>set seatNumbers. \<not> confirmable (seats db) eid f owner now
             \<and> find (\<lambda>sn. \<not> confirmable (seats db) eid sn owner now) seatNumbers = Some f
             \<and> post_confirm db eid seatNumbers owner now new_id created =
                 (Conflict f NotLockedOrExpired, db)))"
proof (intro conjI impI)
  assume "\<forall>sn\<in>set seatNumbers. confirmable (seats db) eid sn owner now"
  from check_loop_ok [OF this, of "[]"] obtain l
    where l: "check_loop eid owner now seatNumbers (seats db) [] = Inr l" by blast
  have m: "book_loop eid new_id seatNumbers (seats db) =
      map (\<lambda>s. if eventId s = eid \<and> seatNumber s \<in> set seatNumbers
                then s\<lparr>status := Booked, bookingId := Some new_id,
                       lockOwner := None, lockExpiresAt := None\<rparr>
                else s) (seats db)"
    using book_loop_map [OF assms(3), of eid new_id seatNumbers] by (simp add: book_update_def)
  show "post_confirm db eid seatNumbers owner now new_id created =
             (BookingCreated \<lparr>b_id = new_id, b_eventId = eid, b_ownerId = owner,
                              b_seats = seatNumbers, b_createdAt = created\<rparr>,
              db\<lparr>bookings := bookings db @
                    [\<lparr>b_id = new_id, b_eventId = eid, b_ownerId = owner,
                      b_seats = seatNumbers, b_createdAt = created\<rparr>],
                 seats := map (\<lambda>s. if eventId s = eid \<and> seatNumber s \<in> set seatNumbers
                                     then s\<lparr>status := Booked, bookingId := Some new_id,
                                            lockOwner := None, lockExpiresAt := None\<rparr>
                                     else s) (seats db)\<rparr>)"
    using assms(1,2) l m
    by (simp add: post_confirm_def Let_def startTransaction_def commitTransaction_def)
next
  assume "\<exists>sn\<in>set seatNumbers. \<not> confirmable (seats db) eid sn owner now"
  then obtain sn where "sn \<in> set seatNumbers" "\<not> confirmable (seats db) eid sn owner now"
    by blast
  from find_failing [of sn seatNumbers "\<lambda>x. confirmable (seats db) eid x owner now", OF this]
  obtain f where f: "f \<in> set seatNumbers" "\<not> confirmable (seats db) eid f owner now"
    "find (\<lambda>sn. \<not> confirmable (seats db) eid sn owner now) seatNumbers = Some f" by blast
  from check_loop_first_fail [OF f(3), of "[]"]
  have "check_loop eid owner now seatNumbers (seats db) [] = Inl f" .
  from post_confirm_stopped [OF assms(1) this, of new_id created] f
  show "\<exists>f\<in>set seatNumbers. \<not> confirmable (seats db) eid f owner now
             \<and> find (\<lambda>sn. \<not> confirmable (seats db) eid sn owner now) seatNumbers = Some f
             \<and> post_confirm db eid seatNumbers owner now new_id created =
                 (Conflict f NotLockedOrExpired, db)" by blast
qed

theorem confirm_all_or_nothing_witness:
  "unique_index (seats hall) \<and> confirmable (seats hall) 1 ''A3'' ''u2'' 100
   \<and> post_confirm hall 1 [''A3''] ''u2'' 100 8 101 =
       (BookingCreated \<lparr>b_id = 8, b_eventId = 1, b_ownerId = ''u2'', b_seats = [''A3''],
                        b_createdAt = 101\<rparr>,
        hall\<lparr>bookings := bookings hall @
                 [\<lparr>b_id = 8, b_eventId = 1, b_ownerId = ''u2'', b_seats = [''A3''],
                   b_createdAt = 101\<rparr>],
             seats := [seat_A1, seat_A2,
                       seat_A3\<lparr>status := Booked, bookingId := Some 8, lockOwner := None,
                               lockExpiresAt := None\<rparr>, seat_A4]\<rparr>)
   \<and> \<not> confirmable (seats hall) 1 ''A2'' ''u2'' 100
   \<and> post_confirm hall 1 [''A3'', ''A2''] ''u2'' 100 8 101 = (Conflict ''A2'' NotLockedOrExpired, hall)"
proof -
  have c3: "confirmable (seats hall) 1 ''A3'' ''u2'' 100"
    and c2: "\<not> confirmable (seats hall) 1 ''A2'' ''u2'' 100"
    by (simp_all add: confirmable_def sample_defs)
  from confirm_all_or_nothing [where owner = "''u2''" and seatNumbers = "[''A3'']" and db = hall
      and eid = 1 and now = 100 and new_id = 8 and created = 101, OF _ _ hall_unique] c3
  have ok: "post_confirm hall 1 [''A3''] ''u2'' 100 8 101 =
       (BookingCreated \<lparr>b_id = 8, b_eventId = 1, b_ownerId = ''u2'', b_seats = [''A3''],
                        b_createdAt = 101\<rparr>,
        hall\<lparr>bookings := bookings hall @
                 [\<lparr>b_id = 8, b_eventId = 1, b_ownerId = ''u2'', b_seats = [''A3''],
                   b_createdAt = 101\<rparr>],
             seats := [seat_A1, seat_A2,
                       seat_A3\<lparr>status := Booked, bookingId := Some 8, lockOwner := None,
                               lockExpiresAt := None\<rparr>, seat_A4]\<rparr>)"
    by (simp add: sample_defs)
  from confirm_all_or_nothing [where owner = "''u2''" and seatNumbers = "[''A3'', ''A2'']"
      and db = hall and eid = 1 and now = 100 and new_id = 8 and created = 101,
      OF _ _ hall_unique] c3 c2
  have no: "post_confirm hall 1 [''A3'', ''A2''] ''u2'' 100 8 101 =
      (Conflict ''A2'' NotLockedOrExpired, hall)"
    by simp
  from hall_unique c3 ok c2 no show ?thesis by simp
qed

section \<open>Stale locks\<close>

lemma first_with_key:
  assumes "unique_index ss" and "i < length ss" and "by_key eid sn (ss ! i)"
  shows "\<forall>j<i. \<not> by_key eid sn (ss ! j)"
proof (intro allI impI notI)
  fix j assume j: "j < i" and b: "by_key eid sn (ss ! j)"
  from j assms(2) have "j < length ss" by simp
  from unique_index_only [OF assms this b] j show False by simp
qed

lemma only_with_key:
  assumes "unique_index ss" and "i < length ss" and "by_key eid sn (ss ! i)" and "a \<in> set ss"
    and "by_key eid sn a"
  shows "a = ss ! i"
proof -
  from assms(4) obtain j where j: "j < length ss" "ss ! j = a" by (auto simp: in_set_conv_nth)
  with assms(5) have "by_key eid sn (ss ! j)" by simp
  from unique_index_only [OF assms(1-3) j(1) this] j show ?thesis by simp
qed


lemma post_confirm_single_conflict:
  assumes "owner \<noteq> []" and "unique_index (seats db)" and "i < length (seats db)"
    and "by_key eid sn (seats db ! i)"
    and "\<not> confirm_filter eid sn owner now (seats db ! i)"
  shows "post_confirm db eid [sn] owner now new_id created = (Conflict sn NotLockedOrExpired, db)"
proof -
  have "\<forall>a\<in>set (seats db). \<not> confirm_filter eid sn owner now a"
  proof (intro ballI notI)
    fix a assume a: "a \<in> set (seats db)" and c: "confirm_filter eid sn owner now a"
    then have "by_key eid sn a" by (simp add: by_key_def confirm_filter_def)
    from only_with_key [OF assms(2-4) a this] c assms(5) show False by simp
  qed
  then have "check_loop eid owner now [sn] (seats db) [] = Inl sn"
    by (simp add: findOne_None_iff [THEN iffD2])
  with assms(1) show ?thesis by (rule post_confirm_stopped)
qed







section \<open>Cancel\<close>

lemma release_update_fields [simp]:
  "eventId (release_update a) = eventId a"
  "seatNumber (release_update a) = seatNumber a"
  "status (release_update a) = Available"
  "lockOwner (release_update a) = None"
  "lockExpiresAt (release_update a) = None"
  "bookingId (release_update a) = bookingId a"
  by (simp_all add: release_update_def)


lemma findOne_unique:
  "unique_index ss \<Longrightarrow> a \<in> set ss \<Longrightarrow> by_key eid sn a \<Longrightarrow> findOne (by_key eid sn) ss = Some a"
proof (induction ss)
  case Nil
  then show ?case by simp
next
  case (Cons s ss)
  then show ?case by (auto simp: unique_index_Cons by_key_seat_key)
qed



lemma post_cancel_stopped:
  assumes "owner \<noteq> []"
    and "cancel_loop eid owner seatNumbers (seats db) = Inl r"
  shows "post_cancel db eid seatNumbers owner = (r, db)"
proof -
  from assms(2) have "seatNumbers \<noteq> []" by auto
  with assms show ?thesis
    by (simp add: post_cancel_def Let_def startTransaction_def abortTransaction_def)
qed




section \<open>Release of an expired lock\<close>

lemma post_cancel_single:
  assumes "owner \<noteq> []" and "unique_index (seats db)" and "i < length (seats db)"
    and "by_key eid sn (seats db ! i)" and "status (seats db ! i) = Locked"
    and "lockOwner (seats db ! i) = Some owner"
  shows "post_cancel db eid [sn] owner =
     (CancelledSeats [sn], db\<lparr>seats := (seats db)[i := release_update (seats db ! i)]\<rparr>)"
proof -
  from first_with_key [OF assms(2-4)] have fst: "\<forall>j<i. \<not> by_key eid sn (seats db ! j)" .
  from findOne_first [OF assms(3,4) fst]
  have f: "findOne (by_key eid sn) (seats db) = Some (seats db ! i)" .
  from updateOne_first [OF assms(3,4) fst]
  have u: "updateOne (by_key eid sn) release_update (seats db) =
      (seats db)[i := release_update (seats db ! i)]" .
  from f u assms(1,5,6) show ?thesis
    by (simp add: post_cancel_def Let_def startTransaction_def commitTransaction_def)
qed

text \<open>
  C10. In a store with the unique index let a seat be locked by an owner with an
  expiry already before \<open>now\<close>. A cancel request of that owner for the seat succeeds
  and makes the seat available with owner and expiry cleared (cancel reads no clock),
  whereas a confirm request of the same owner at \<open>now\<close> is answered by a Conflict.
\<close>

theorem owner_releases_expired_lock:
  assumes "owner \<noteq> []" and "unique_index (seats db)"
    and "i < length (seats db)" and "seats db ! i = s"
    and "eventId s = eid" and "seatNumber s = sn"
    and "status s = Locked" and "lockOwner s = Some owner"
    and "lockExpiresAt s = Some t" and "t < now"
  shows "post_cancel db eid [sn] owner =
           (CancelledSeats [sn],
            db\<lparr>seats := (seats db)[i := s\<lparr>status := Available, lockOwner := None,
                                           lockExpiresAt := None\<rparr>]\<rparr>)
    \<and> post_confirm db eid [sn] owner now new_id created = (Conflict sn NotLockedOrExpired, db)"
proof -
  have k: "by_key eid sn (seats db ! i)" using assms by (simp add: by_key_def)
  have n: "\<not> confirm_filter eid sn owner now (seats db ! i)"
    using assms by (simp add: confirm_filter_def date_gt_def)
  from post_cancel_single [OF assms(1-3) k] assms(4,7,8)
  have "post_cancel db eid [sn] owner =
           (CancelledSeats [sn],
            db\<lparr>seats := (seats db)[i := s\<lparr>status := Available, lockOwner := None,
                                           lockExpiresAt := None\<rparr>]\<rparr>)"
    by (simp add: release_update_def)
  with post_confirm_single_conflict [OF assms(1-3) k n, of new_id created] show ?thesis by simp
qed

theorem owner_releases_expired_lock_witness:
  "unique_index (seats hall) \<and> seats hall ! 1 = seat_A2 \<and> status seat_A2 = Locked
   \<and> lockOwner seat_A2 = Some ''u1'' \<and> lockExpiresAt seat_A2 = Some 50 \<and> (50::int) < 100
   \<and> post_cancel hall 1 [''A2''] ''u1'' =
       (CancelledSeats [''A2''],
        hall\<lparr>seats := [seat_A1, seat_A2\<lparr>status := Available, lockOwner := None,
                                          lockExpiresAt := None\<rparr>, seat_A3, seat_A4]\<rparr>)
   \<and> post_confirm hall 1 [''A2''] ''u1'' 100 8 101 = (Conflict ''A2'' NotLockedOrExpired, hall)"
proof -
  have st: "seats hall ! 1 = seat_A2" "status seat_A2 = Locked" "lockOwner seat_A2 = Some ''u1''"
    "lockExpiresAt seat_A2 = Some 50" "eventId seat_A2 = 1" "seatNumber seat_A2 = ''A2''"
    by (simp_all add: sample_defs)
  have i: "1 < length (seats hall)" by (simp add: hall_def)
  from owner_releases_expired_lock [where owner = "''u1''" and db = hall
      and i = 1 and s = seat_A2 and eid = 1 and sn = "''A2''" and t = 50 and now = 100
      and new_id = 8 and created = 101,
      OF _ hall_unique i st(1) st(5) st(6) st(2) st(3) st(4)]
  have "post_cancel hall 1 [''A2''] ''u1'' =
       (CancelledSeats [''A2''],
        hall\<lparr>seats := [seat_A1, seat_A2\<lparr>status := Available, lockOwner := None,
                                          lockExpiresAt := None\<rparr>, seat_A3, seat_A4]\<rparr>)
   \<and> post_confirm hall 1 [''A2''] ''u1'' 100 8 101 = (Conflict ''A2'' NotLockedOrExpired, hall)"
    by (simp add: sample_defs)
  with hall_unique st show ?thesis by simp
qed

section \<open>Booked seats stay booked\<close>

lemma lock_loop_keeps_booked:
  "lock_loop eid owner t now sns ss acc = Inr (ss', ls) \<Longrightarrow>
   length ss' = length ss \<and> (\<forall>i<length ss. status (ss ! i) = Booked \<longrightarrow> ss' ! i = ss ! i)"
proof (induction sns arbitrary: ss acc)
  case Nil
  then show ?case by simp
next
  case (Cons x sns)
  obtain r ss1 where st: "findOneAndUpdate (lock_filter eid x now) (lock_update owner t) ss = (r, ss1)"
    by (cases "findOneAndUpdate (lock_filter eid x now) (lock_update owner t) ss")
  with Cons.prems obtain seat where r: "r = Some seat"
    and rest: "lock_loop eid owner t now sns ss1 (acc @ [seat]) = Inr (ss', ls)"
    by (cases r) auto
  from st r lock_step [of eid x now owner t ss seat ss1]
  obtain k where k: "k < length ss" "lock_filter eid x now (ss ! k)" "ss1 = ss[k := seat]"
    by blast
  from k(2) have nb: "status (ss ! k) \<noteq> Booked" by (auto simp: lock_filter_def)
  have 1: "length ss1 = length ss" using k(3) by simp
  have 2: "\<forall>i<length ss. status (ss ! i) = Booked \<longrightarrow> ss1 ! i = ss ! i"
  proof (intro allI impI)
    fix i assume "i < length ss" and "status (ss ! i) = Booked"
    with nb have "i \<noteq> k" by auto
    then show "ss1 ! i = ss ! i" using k(3) by simp
  qed
  from Cons.IH [OF rest] 1 2 show ?case by auto
qed

lemma cancel_loop_keeps_booked:
  "cancel_loop eid owner sns ss = Inr ss' \<Longrightarrow>
   length ss' = length ss \<and> (\<forall>i<length ss. status (ss ! i) = Booked \<longrightarrow> ss' ! i = ss ! i)"
proof (induction sns arbitrary: ss)
  case Nil
  then show ?case by simp
next
  case (Cons x sns)
  let ?ss1 = "updateOne (by_key eid x) release_update ss"
  from Cons.prems obtain a where a: "findOne (by_key eid x) ss = Some a" "status a = Locked"
    and rest: "cancel_loop eid owner sns ?ss1 = Inr ss'"
    by (auto split: option.splits if_splits)
  from findOne_SomeD [OF a(1)] obtain k where k: "k < length ss" "ss ! k = a" "by_key eid x a"
    "\<forall>j<k. \<not> by_key eid x (ss ! j)" by blast
  then have u: "?ss1 = ss[k := release_update (ss ! k)]"
    by (intro updateOne_first) auto
  have 1: "length ?ss1 = length ss" using u by simp
  have 2: "\<forall>i<length ss. status (ss ! i) = Booked \<longrightarrow> ?ss1 ! i = ss ! i"
  proof (intro allI impI)
    fix i assume "i < length ss" and "status (ss ! i) = Booked"
    with k(2) a(2) have "i \<noteq> k" by auto
    then show "?ss1 ! i = ss ! i" using u by simp
  qed
  from Cons.IH [OF rest] 1 2 show ?case by auto
qed

lemma booked_kept_by_lock:
  assumes "i < length (seats db)" and "status (seats db ! i) = Booked"
  shows "length (seats (snd (post_lock db eid seatNumbers owner ttlSeconds now))) = length (seats db)
    \<and> seats (snd (post_lock db eid seatNumbers owner ttlSeconds now)) ! i = seats db ! i"
  using assms
  by (auto simp: post_lock_def Let_def startTransaction_def abortTransaction_def
      commitTransaction_def split: sum.splits option.splits dest: lock_loop_keeps_booked)

lemma booked_kept_by_cancel:
  assumes "i < length (seats db)" and "status (seats db ! i) = Booked"
  shows "length (seats (snd (post_cancel db eid seatNumbers owner))) = length (seats db)
    \<and> seats (snd (post_cancel db eid seatNumbers owner)) ! i = seats db ! i"
  using assms
  by (auto simp: post_cancel_def Let_def startTransaction_def abortTransaction_def
      commitTransaction_def split: sum.splits dest: cancel_loop_keeps_booked)

lemma booked_kept_by_sweep:
  assumes "i < length (seats db)" and "status (seats db ! i) = Booked"
  shows "length (seats (snd (cleanupExpiredLocks db now))) = length (seats db)
    \<and> seats (snd (cleanupExpiredLocks db now)) ! i = seats db ! i"
  using assms by (simp add: cleanupExpiredLocks_def updateMany_def expired_lock_def)

lemma booked_kept_by_request:
  assumes "i < length (seats db)" and "status (seats db ! i) = Booked"
  shows "length (seats (apply_request db r)) = length (seats db)
    \<and> seats (apply_request db r) ! i = seats db ! i"
  using assms
  by (cases r) (simp_all add: booked_kept_by_lock booked_kept_by_cancel booked_kept_by_sweep)

lemma booked_kept_by_run:
  "i < length (seats db) \<Longrightarrow> status (seats db ! i) = Booked \<Longrightarrow>
   length (seats (run_requests db reqs)) = length (seats db)
    \<and> seats (run_requests db reqs) ! i = seats db ! i"
  unfolding run_requests_def
proof (induction reqs arbitrary: db)
  case Nil
  then show ?case by simp
next
  case (Cons r reqs)
  from booked_kept_by_request [OF Cons.prems, of r]
  have 1: "length (seats (apply_request db r)) = length (seats db)"
    and 2: "seats (apply_request db r) ! i = seats db ! i" by simp_all
  from 1 2 Cons.prems have "i < length (seats (apply_request db r))"
    "status (seats (apply_request db r) ! i) = Booked" by simp_all
  from Cons.IH [OF this] 1 2 show ?case by simp
qed

text \<open>
  C4. A seat document that is booked is, at the same position and with all its fields
  (so still booked), in the store that a lock request, a cancel request or a sweep
  leaves behind, whatever the request and its answer, and so in the store after any
  sequence of such requests. The filter of lock and the filter of the sweep do not
  match it, and a validated cancel request that reaches it is answered by a Conflict.
\<close>

theorem booked_seat_never_resurrected:
  assumes "i < length (seats db)" and "status (seats db ! i) = Booked"
  shows "length (seats (snd (post_lock db eid seatNumbers owner ttlSeconds now))) = length (seats db)
    \<and> seats (snd (post_lock db eid seatNumbers owner ttlSeconds now)) ! i = seats db ! i
    \<and> length (seats (snd (post_cancel db eid seatNumbers owner))) = length (seats db)
    \<and> seats (snd (post_cancel db eid seatNumbers owner)) ! i = seats db ! i
    \<and> length (seats (snd (cleanupExpiredLocks db now))) = length (seats db)
    \<and> seats (snd (cleanupExpiredLocks db now)) ! i = seats db ! i
    \<and> length (seats (run_requests db reqs)) = length (seats db)
    \<and> seats (run_requests db reqs) ! i = seats db ! i
    \<and> \<not> lock_filter eid sn now (seats db ! i)
    \<and> \<not> expired_lock now (seats db ! i)
    \<and> (owner \<noteq> [] \<and> unique_index (seats db) \<and> eventId (seats db ! i) = eid
         \<and> seatNumber (seats db ! i) = sn \<longrightarrow>
       post_cancel db eid (sn # rest) owner = (Conflict sn AlreadyBooked, db))"
proof -
  note l = booked_kept_by_lock [OF assms, of eid seatNumbers owner ttlSeconds now]
  note c = booked_kept_by_cancel [OF assms, of eid seatNumbers owner]
  note s = booked_kept_by_sweep [OF assms, of now]
  note q = booked_kept_by_run [OF assms, of reqs]
  have f: "\<not> lock_filter eid sn now (seats db ! i)" "\<not> expired_lock now (seats db ! i)"
    using assms(2) by (simp_all add: lock_filter_def expired_lock_def)
  have r: "post_cancel db eid (sn # rest) owner = (Conflict sn AlreadyBooked, db)"
    if o: "owner \<noteq> []" and u: "unique_index (seats db)" and e: "eventId (seats db ! i) = eid"
      and n: "seatNumber (seats db ! i) = sn"
  proof -
    have "by_key eid sn (seats db ! i)" using e n by (simp add: by_key_def)
    from findOne_unique [OF u nth_mem [OF assms(1)] this] assms(2)
    have "cancel_loop eid owner (sn # rest) (seats db) = Inl (Conflict sn AlreadyBooked)" by simp
    with o show ?thesis by (rule post_cancel_stopped)
  qed
  from l c s q f r show ?thesis by blast
qed

theorem booked_seat_never_resurrected_witness:
  "3 < length (seats hall) \<and> status (seats hall ! 3) = Booked
   \<and> seats (snd (post_lock hall 1 [''A4''] ''u2'' 60 100)) ! 3 = seat_A4
   \<and> seats (snd (post_cancel hall 1 [''A4''] ''u2'')) ! 3 = seat_A4
   \<and> seats (snd (cleanupExpiredLocks hall 100)) ! 3 = seat_A4
   \<and> seats (run_requests hall
        [SweepTick 100, LockRequest 1 [''A1'', ''A2''] ''u5'' 60 100,
         CancelRequest 1 [''A4''] ''u2'', SweepTick 700]) ! 3 = seat_A4
   \<and> post_cancel hall 1 [''A4''] ''u2'' = (Conflict ''A4'' AlreadyBooked, hall)"
proof -
  have h: "3 < length (seats hall)" "status (seats hall ! 3) = Booked"
    "seats hall ! 3 = seat_A4" "eventId (seats hall ! 3) = 1" "seatNumber (seats hall ! 3) = ''A4''"
    by (simp_all add: sample_defs)
  from booked_seat_never_resurrected [OF h(1,2), where eid = 1 and seatNumbers = "[''A4'']"
      and owner = "''u2''" and ttlSeconds = 60 and now = 100 and sn = "''A4''" and rest = "[]"
      and reqs = "[SweepTick 100, LockRequest 1 [''A1'', ''A2''] ''u5'' 60 100,
         CancelRequest 1 [''A4''] ''u2'', SweepTick 700]"]
    hall_unique h(3,4,5)
  have "seats (snd (post_lock hall 1 [''A4''] ''u2'' 60 100)) ! 3 = seat_A4
   \<and> seats (snd (post_cancel hall 1 [''A4''] ''u2'')) ! 3 = seat_A4
   \<and> seats (snd (cleanupExpiredLocks hall 100)) ! 3 = seat_A4
   \<and> seats (run_requests hall
        [SweepTick 100, LockRequest 1 [''A1'', ''A2''] ''u5'' 60 100,
         CancelRequest 1 [''A4''] ''u2'', SweepTick 700]) ! 3 = seat_A4
   \<and> post_cancel hall 1 [''A4''] ''u2'' = (Conflict ''A4'' AlreadyBooked, hall)"
    by simp
  with h(1,2) show ?thesis by blast
qed

section \<open>The unique index is kept\<close>

text \<open>
  The theorems above assume the unique index. Every operation keeps it: updates do
  not touch the key fields, and an insertion that would break it is refused.
\<close>

lemma keys_updateOne:
  "(\<And>s. seat_key (u s) = seat_key s) \<Longrightarrow> map seat_key (updateOne f u ss) = map seat_key ss"
  by (induction ss) auto

lemma keys_lock_loop:
  "lock_loop eid owner t now sns ss acc = Inr (ss', ls) \<Longrightarrow> map seat_key ss' = map seat_key ss"
proof (induction sns arbitrary: ss acc)
  case Nil
  then show ?case by simp
next
  case (Cons x sns)
  from Cons.prems obtain seat where
    "lock_loop eid owner t now sns (updateOne (lock_filter eid x now) (lock_update owner t) ss)
       (acc @ [seat]) = Inr (ss', ls)"
    by (auto simp: findOneAndUpdate_eq split: option.splits)
  from Cons.IH [OF this] show ?case by (simp add: keys_updateOne)
qed

lemma keys_book_loop: "map seat_key (book_loop eid bid sns ss) = map seat_key ss"
  by (induction sns arbitrary: ss) (simp_all add: keys_updateOne)

lemma keys_cancel_loop:
  "cancel_loop eid owner sns ss = Inr ss' \<Longrightarrow> map seat_key ss' = map seat_key ss"
proof (induction sns arbitrary: ss)
  case Nil
  then show ?case by simp
next
  case (Cons x sns)
  from Cons.prems have "cancel_loop eid owner sns (updateOne (by_key eid x) release_update ss) = Inr ss'"
    by (auto split: option.splits if_splits)
  from Cons.IH [OF this] show ?case by (simp add: keys_updateOne)
qed

lemma keys_updateMany:
  "(\<And>s. seat_key (u s) = seat_key s) \<Longrightarrow> map seat_key (fst (updateMany f u ss)) = map seat_key ss"
  by (induction ss) (auto simp: updateMany_def)

lemma unique_insert_ordered:
  "unique_index ss \<Longrightarrow> unique_index (snd (insert_ordered docs ss))"
  by (induction docs arbitrary: ss) (auto simp: unique_index_def)

lemma unique_index_kept:
  assumes "unique_index (seats db)"
  shows "unique_index (seats (snd (post_events db name seatNumbers new_id)))"
    and "unique_index (seats (snd (post_lock db eid seatNumbers owner ttlSeconds now)))"
    and "unique_index (seats (snd (post_confirm db eid seatNumbers owner now new_id created)))"
    and "unique_index (seats (snd (post_cancel db eid seatNumbers owner)))"
    and "unique_index (seats (snd (cleanupExpiredLocks db now)))"
proof -
  show "unique_index (seats (snd (post_events db name seatNumbers new_id)))"
    using assms unique_insert_ordered [OF assms, of "map (new_seat new_id) seatNumbers"]
    by (auto simp: post_events_def insertMany_def Let_def split: prod.splits bool.splits)
  show "unique_index (seats (snd (post_lock db eid seatNumbers owner ttlSeconds now)))"
    using assms
    by (auto simp: post_lock_def Let_def startTransaction_def abortTransaction_def
        commitTransaction_def unique_index_def split: sum.splits option.splits
        dest: keys_lock_loop)
  show "unique_index (seats (snd (post_confirm db eid seatNumbers owner now new_id created)))"
    using assms
    by (auto simp: post_confirm_def Let_def startTransaction_def abortTransaction_def
        commitTransaction_def unique_index_def keys_book_loop split: sum.splits)
  show "unique_index (seats (snd (post_cancel db eid seatNumbers owner)))"
    using assms
    by (auto simp: post_cancel_def Let_def startTransaction_def abortTransaction_def
        commitTransaction_def unique_index_def split: sum.splits dest: keys_cancel_loop)
  show "unique_index (seats (snd (cleanupExpiredLocks db now)))"
    using assms keys_updateMany [of release_update "expired_lock now" "seats db"]
    by (auto simp: cleanupExpiredLocks_def unique_index_def split: prod.splits)
qed

end
